theory Spec2Isabelle
  imports Complex_Main
begin

section \<open>Strings, bytes and numbers\<close>

text \<open>
  A Python \<open>str\<close> is a sequence of Unicode code points, a \<open>bytes\<close> value a sequence
  of octets. Code points are natural numbers here, octets are HOL characters, so that
  \<open>len\<close> is \<open>length\<close> on both and the Latin-1 encoding is a real conversion.
\<close>

type_synonym pystr = "nat list"
type_synonym bytes = "char list"

definition ascii :: "string \<Rightarrow> pystr" where
  "ascii s = map of_char s"

datatype py_error = ZeroDivisionError | ValueError | KeyError | OverflowError

subsection \<open>\<open>pdf_escape\<close>\<close>

text \<open>
  \<open>str.replace(old, new)\<close> for an \<open>old\<close> of one character: every occurrence of the
  character is replaced, scanning left to right.
\<close>

definition str_replace1 :: "nat \<Rightarrow> pystr \<Rightarrow> pystr \<Rightarrow> pystr" where
  "str_replace1 old new s = concat (map (\<lambda>c. if c = old then new else [c]) s)"

abbreviation BACKSLASH :: nat where "BACKSLASH \<equiv> 92"
abbreviation LPAREN :: nat where "LPAREN \<equiv> 40"
abbreviation RPAREN :: nat where "RPAREN \<equiv> 41"

definition pdf_escape :: "pystr \<Rightarrow> pystr" where
  "pdf_escape text =
     str_replace1 RPAREN [BACKSLASH, RPAREN]
       (str_replace1 LPAREN [BACKSLASH, LPAREN]
         (str_replace1 BACKSLASH [BACKSLASH, BACKSLASH] text))"

text \<open>
  The reader's side of the escaping, as the specification words it: each two-character
  escape sequence (a backslash and the character after it) is replaced by that character.
\<close>

fun pdf_unescape :: "pystr \<Rightarrow> pystr" where
  "pdf_unescape [] = []"
| "pdf_unescape [c] = [c]"
| "pdf_unescape (c # d # s) =
     (if c = BACKSLASH then d # pdf_unescape s else c # pdf_unescape (d # s))"

definition escape_char :: "nat \<Rightarrow> pystr" where
  "escape_char c = (if c = BACKSLASH \<or> c = LPAREN \<or> c = RPAREN then [BACKSLASH, c] else [c])"


subsection \<open>Whitespace, \<open>strip\<close> and \<open>splitlines\<close>\<close>

text \<open>
  \<open>str.isspace\<close> on one character: the Unicode white space of CPython, which is what
  \<open>strip()\<close>, \<open>rstrip()\<close> and \<open>split()\<close> without arguments remove.
\<close>

definition py_isspace :: "nat \<Rightarrow> bool" where
  "py_isspace c =
     ((9 \<le> c \<and> c \<le> 13) \<or> (28 \<le> c \<and> c \<le> 32) \<or> c = 133 \<or> c = 160 \<or> c = 5760
      \<or> (8192 \<le> c \<and> c \<le> 8202) \<or> c = 8232 \<or> c = 8233 \<or> c = 8239 \<or> c = 8287
      \<or> c = 12288)"

definition py_lstrip :: "pystr \<Rightarrow> pystr" where
  "py_lstrip s = dropWhile py_isspace s"

definition py_rstrip :: "pystr \<Rightarrow> pystr" where
  "py_rstrip s = rev (dropWhile py_isspace (rev s))"

definition py_strip :: "pystr \<Rightarrow> pystr" where
  "py_strip s = py_rstrip (py_lstrip s)"

text \<open>
  \<open>str.splitlines()\<close>: a line ends at \<open>\n\<close>, \<open>\r\<close>, \<open>\r\n\<close>, \<open>\v\<close>, \<open>\f\<close>,
  \<open>\x1c\<close>, \<open>\x1d\<close>, \<open>\x1e\<close>, \<open>\x85\<close>, U+2028 or U+2029; the line ends are dropped
  and a final line end opens no further line.
\<close>

definition is_linebreak :: "nat \<Rightarrow> bool" where
  "is_linebreak c =
     ((10 \<le> c \<and> c \<le> 13) \<or> (28 \<le> c \<and> c \<le> 30) \<or> c = 133 \<or> c = 8232 \<or> c = 8233)"

fun splitlines_from :: "pystr \<Rightarrow> pystr \<Rightarrow> pystr list" where
  "splitlines_from cur [] = (if cur = [] then [] else [cur])"
| "splitlines_from cur [c] =
     (if is_linebreak c then [cur] else [cur @ [c]])"
| "splitlines_from cur (c # d # s) =
     (if c = 13 \<and> d = 10 then cur # splitlines_from [] s
      else if is_linebreak c then cur # splitlines_from [] (d # s)
      else splitlines_from (cur @ [c]) (d # s))"

definition splitlines :: "pystr \<Rightarrow> pystr list" where
  "splitlines text = splitlines_from [] text"


section \<open>Reading the CV text\<close>

definition DEFAULT_NAME :: pystr where
  "DEFAULT_NAME = ascii ''Iro Karavasili''"

definition DEFAULT_SUBTITLE :: pystr where
  "DEFAULT_SUBTITLE = ascii ''Atlassian Engineer - Service Delivery - Process Design''"

text \<open>
  The loop of \<open>load_cv_lines\<close> over the lines, with its two variables \<open>skipped\<close> and
  \<open>remaining\<close> as the state.
\<close>

definition skip_step :: "nat \<times> pystr list \<Rightarrow> pystr \<Rightarrow> nat \<times> pystr list" where
  "skip_step st l =
     (let skipped = fst st; remaining = snd st in
      if py_strip l \<noteq> [] then
        (let skipped = skipped + 1 in
         if skipped \<le> 2 then (skipped, remaining)
         else (skipped, remaining @ [py_rstrip l]))
      else (skipped, remaining @ [py_rstrip l]))"

definition load_cv_from_lines :: "pystr list \<Rightarrow> pystr \<times> pystr \<times> pystr list" where
  "load_cv_from_lines lines =
     (let non_empty = map py_strip (filter (\<lambda>l. py_strip l \<noteq> []) lines);
          name = (if non_empty \<noteq> [] then non_empty ! 0 else DEFAULT_NAME);
          subtitle = (if length non_empty > 1 then non_empty ! 1 else DEFAULT_SUBTITLE);
          remaining = snd (foldl skip_step (0, []) lines)
      in (name, subtitle, remaining))"

text \<open>
  \<open>load_cv_lines\<close> on the decoded text of the file (reading and decoding the file
  are the caller's side of this model).
\<close>

definition load_cv_lines :: "pystr \<Rightarrow> pystr \<times> pystr \<times> pystr list" where
  "load_cv_lines text = load_cv_from_lines (splitlines text)"

text \<open>
  The specification's wording of the body: the line sequence with its first \<open>k\<close>
  non-blank lines removed.
\<close>

definition is_blank_line :: "pystr \<Rightarrow> bool" where
  "is_blank_line l = list_all py_isspace l"

fun without_first_nonblank :: "nat \<Rightarrow> pystr list \<Rightarrow> pystr list" where
  "without_first_nonblank 0 ls = ls"
| "without_first_nonblank (Suc k) [] = []"
| "without_first_nonblank (Suc k) (l # ls) =
     (if is_blank_line l then l # without_first_nonblank (Suc k) ls
      else without_first_nonblank k ls)"



section \<open>Writing the PDF file\<close>

subsection \<open>Decimal numbers and dictionaries\<close>

text \<open>
  \<open>f"{n}"\<close> for a non-negative integer: its decimal digits, most significant first.
\<close>

definition digit_char :: "nat \<Rightarrow> char" where
  "digit_char d = ''0123456789'' ! d"

fun str_nat :: "nat \<Rightarrow> string" where
  "str_nat n = (if n < 10 then [digit_char n] else str_nat (n div 10) @ [digit_char (n mod 10)])"

declare str_nat.simps [simp del]

text \<open>\<open>f"{n:010d}"\<close>: the decimal digits, padded with zeros on the left to ten characters.\<close>

definition fmt_010d :: "nat \<Rightarrow> string" where
  "fmt_010d n = replicate (10 - length (str_nat n)) (CHR ''0'') @ str_nat n"

text \<open>Reading a decimal number back, as a PDF reader does with a cross-reference entry.\<close>

definition digit_value :: "char \<Rightarrow> nat" where
  "digit_value c = of_char c - 48"

definition read_nat :: "string \<Rightarrow> nat" where
  "read_nat ds = foldl (\<lambda>acc c. 10 * acc + digit_value c) 0 ds"

text \<open>
  A Python \<open>dict\<close> with integer keys, as an association list in insertion order:
  \<open>d[k] = v\<close> replaces the value of a key that is present and appends a new key.
\<close>

fun dict_set :: "nat \<Rightarrow> 'v \<Rightarrow> (nat \<times> 'v) list \<Rightarrow> (nat \<times> 'v) list" where
  "dict_set k v [] = [(k, v)]"
| "dict_set k v ((k', v') # d) = (if k' = k then (k, v) # d else (k', v') # dict_set k v d)"

definition dict_keys :: "(nat \<times> 'v) list \<Rightarrow> nat list" where
  "dict_keys d = map fst d"

text \<open>\<open>sep.join(parts)\<close>.\<close>

fun join :: "'a list \<Rightarrow> 'a list list \<Rightarrow> 'a list" where
  "join sep [] = []"
| "join sep [p] = p"
| "join sep (p # q # ps) = p @ sep @ join sep (q # ps)"

text \<open>
  \<open>str.encode("latin-1", errors="replace")\<close>: a code point below 256 is its own byte,
  any other becomes a question mark.
\<close>

definition encode_latin1_replace :: "pystr \<Rightarrow> bytes" where
  "encode_latin1_replace s = map (\<lambda>c. if c < 256 then char_of c else CHR ''?'') s"

subsection \<open>\<open>StyledPdf.write_pdf\<close>\<close>

definition PAGE_WIDTH :: nat where "PAGE_WIDTH = 595"
definition PAGE_HEIGHT :: nat where "PAGE_HEIGHT = 842"
definition MARGIN_X :: nat where "MARGIN_X = 36"
definition CONTENT_WIDTH :: nat where "CONTENT_WIDTH = PAGE_WIDTH - 2 * MARGIN_X"

definition catalog_object :: bytes where
  "catalog_object = ''<< /Type /Catalog /Pages 2 0 R >>''"

definition font1_object :: bytes where
  "font1_object = ''<< /Type /Font /Subtype /Type1 /BaseFont /Helvetica >>''"

definition font2_object :: bytes where
  "font2_object = ''<< /Type /Font /Subtype /Type1 /BaseFont /Helvetica-Bold >>''"

definition content_object :: "pystr \<Rightarrow> bytes" where
  "content_object stream =
     (let stream_bytes = encode_latin1_replace stream in
      ''<< /Length '' @ str_nat (length stream_bytes) @ '' >>\<newline>stream\<newline>''
        @ stream_bytes @ ''endstream'')"

definition page_object :: "nat \<Rightarrow> bytes" where
  "page_object content_id =
     ''<< /Type /Page /Parent 2 0 R /MediaBox [0 0 '' @ str_nat PAGE_WIDTH @ '' ''
       @ str_nat PAGE_HEIGHT @ ''] ''
       @ ''/Resources << /Font << /F1 3 0 R /F2 4 0 R >> >> /Contents '' @ str_nat content_id
       @ '' 0 R >>''"

definition pages_object :: "nat list \<Rightarrow> bytes" where
  "pages_object page_object_ids =
     (let kids = join '' '' (map (\<lambda>n. str_nat n @ '' 0 R'') page_object_ids) in
      ''<< /Type /Pages /Count '' @ str_nat (length page_object_ids) @ '' /Kids ['' @ kids
        @ ''] >>'')"

text \<open>
  The first loop of \<open>write_pdf\<close>, over the page streams; its state is \<open>objects\<close>,
  \<open>page_object_ids\<close> and \<open>next_id\<close>.
\<close>

type_synonym build_state = "(nat \<times> bytes) list \<times> nat list \<times> nat"

definition add_page :: "build_state \<Rightarrow> pystr \<Rightarrow> build_state" where
  "add_page st stream =
     (case st of (objects, page_object_ids, next_id) \<Rightarrow>
        (let page_id = next_id;
             content_id = next_id + 1;
             next_id = next_id + 2;
             page_object_ids = page_object_ids @ [page_id];
             objects = dict_set content_id (content_object stream) objects;
             objects = dict_set page_id (page_object content_id) objects
         in (objects, page_object_ids, next_id)))"

definition build_objects :: "pystr list \<Rightarrow> (nat \<times> bytes) list \<times> nat list" where
  "build_objects page_streams =
     (let objects = [(1, catalog_object), (3, font1_object), (4, font2_object)];
          st = foldl add_page (objects, [], 5) page_streams;
          objects = fst st;
          page_object_ids = fst (snd st);
          objects = dict_set 2 (pages_object page_object_ids) objects
      in (objects, page_object_ids))"

definition pdf_header :: bytes where
  "pdf_header = ''%PDF-1.4\<newline>%'' @ [CHR 0xE2, CHR 0xE3, CHR 0xCF, CHR 0xD3, CHR 0x0A]"

definition obj_token :: "nat \<Rightarrow> bytes" where
  "obj_token obj_id = str_nat obj_id @ '' 0 obj\<newline>''"

text \<open>
  The second loop, over the sorted object ids; its state is \<open>output_parts\<close> and
  \<open>offsets\<close>. \<open>objects[obj_id]\<close> raises \<open>KeyError\<close> on a missing key.
\<close>

fun emit_objects ::
  "(nat \<times> bytes) list \<Rightarrow> nat list \<Rightarrow> bytes list \<times> (nat \<times> nat) list
     \<Rightarrow> py_error + bytes list \<times> (nat \<times> nat) list" where
  "emit_objects objects [] st = Inr st"
| "emit_objects objects (obj_id # ids) (output_parts, offsets) =
     (let offsets = dict_set obj_id (sum_list (map length output_parts)) offsets;
          output_parts = output_parts @ [obj_token obj_id]
      in case map_of objects obj_id of
           None \<Rightarrow> Inl KeyError
         | Some body \<Rightarrow>
             emit_objects objects ids (output_parts @ [body] @ [''\<newline>endobj\<newline>''], offsets))"

definition dict_get :: "(nat \<times> 'v) list \<Rightarrow> nat \<Rightarrow> 'v \<Rightarrow> 'v" where
  "dict_get d k dflt = (case map_of d k of None \<Rightarrow> dflt | Some v \<Rightarrow> v)"

definition xref_entry :: "(nat \<times> nat) list \<Rightarrow> nat \<Rightarrow> bytes" where
  "xref_entry offsets i = fmt_010d (dict_get offsets i 0) @ '' 00000 n \<newline>''"

definition xref_section :: "(nat \<times> nat) list \<Rightarrow> nat \<Rightarrow> bytes list" where
  "xref_section offsets max_id =
     [''xref\<newline>0 '' @ str_nat (max_id + 1) @ ''\<newline>'', ''0000000000 65535 f \<newline>'']
       @ map (xref_entry offsets) [1..<max_id + 1]"

definition trailer :: "nat \<Rightarrow> nat \<Rightarrow> bytes" where
  "trailer max_id xref_pos =
     ''trailer\<newline><< /Size '' @ str_nat (max_id + 1) @ '' /Root 1 0 R >>\<newline>''
       @ ''startxref\<newline>'' @ str_nat xref_pos @ ''\<newline>%%EOF\<newline>''"

text \<open>\<open>max(ordered)\<close> raises \<open>ValueError\<close> on an empty list.\<close>

fun py_max :: "nat list \<Rightarrow> py_error + nat" where
  "py_max [] = Inl ValueError"
| "py_max (x # xs) = Inr (fold max xs x)"

text \<open>
  \<open>write_pdf\<close> on the page streams of the document: the bytes it hands to
  \<open>path.write_bytes\<close>, with the offsets it recorded.
\<close>

definition write_pdf_parts ::
  "pystr list \<Rightarrow> py_error + (bytes list \<times> (nat \<times> nat) list \<times> nat)" where
  "write_pdf_parts page_streams =
     (let objects = fst (build_objects page_streams);
          ordered = sort (dict_keys objects)
      in case emit_objects objects ordered ([pdf_header], [(0, 0)]) of
           Inl e \<Rightarrow> Inl e
         | Inr (output_parts, offsets) \<Rightarrow>
             (case py_max ordered of
                Inl e \<Rightarrow> Inl e
              | Inr max_id \<Rightarrow> Inr (output_parts, offsets, max_id)))"

definition write_pdf :: "pystr list \<Rightarrow> py_error + bytes" where
  "write_pdf page_streams =
     (case write_pdf_parts page_streams of
        Inl e \<Rightarrow> Inl e
      | Inr (output_parts, offsets, max_id) \<Rightarrow>
          (let xref_pos = sum_list (map length output_parts);
               xref = xref_section offsets max_id
           in Inr (concat (output_parts @ xref @ [trailer max_id xref_pos]))))"

definition recorded_offsets :: "pystr list \<Rightarrow> (nat \<times> nat) list" where
  "recorded_offsets page_streams =
     (case write_pdf_parts page_streams of Inl e \<Rightarrow> [] | Inr (output_parts, offsets, max_id) \<Rightarrow> offsets)"

text \<open>One object as it stands in the file: its token, its body and \<open>endobj\<close>.\<close>

definition object_text :: "(nat \<times> bytes) list \<Rightarrow> nat \<Rightarrow> bytes" where
  "object_text objs i = obj_token i @ dict_get objs i [] @ ''\<newline>endobj\<newline>''"

text \<open>
  The part of the file before the cross-reference table: the header and the objects in
  ascending order of their ids; and the position at which object \<open>i\<close> starts in it.
\<close>

definition file_body :: "pystr list \<Rightarrow> bytes" where
  "file_body ss = pdf_header @ concat (map (object_text (fst (build_objects ss))) [1..<5 + 2 * length ss])"

definition object_offset :: "pystr list \<Rightarrow> nat \<Rightarrow> nat" where
  "object_offset ss i = length (pdf_header @ concat (map (object_text (fst (build_objects ss))) [1..<i]))"

section \<open>Wrapping text\<close>

subsection \<open>\<open>textwrap.wrap\<close>\<close>

text \<open>
  \<open>wrap_text\<close> calls \<open>textwrap.wrap(text, width, break_long_words=False,
  break_on_hyphens=False)\<close> of the Python standard library. What follows is that call as
  \<open>TextWrapper.wrap\<close> runs it with the other options at their defaults
  (\<open>expand_tabs\<close>, \<open>replace_whitespace\<close>, \<open>drop_whitespace\<close>, no indents, no
  \<open>max_lines\<close>): \<open>_munge_whitespace\<close>, \<open>_split\<close> and \<open>_wrap_chunks\<close>.
\<close>













subsection \<open>\<open>wrap_text\<close>\<close>







text \<open>
  The words of a string, as \<open>str.split()\<close> gives them: the maximal runs of characters
  that are not white space.
\<close>

fun words_from :: "pystr \<Rightarrow> pystr \<Rightarrow> pystr list" where
  "words_from cur [] = (if cur = [] then [] else [cur])"
| "words_from cur (c # s) =
     (if py_isspace c then (if cur = [] then words_from [] s else cur # words_from [] s)
      else words_from (cur @ [c]) s)"

definition py_split :: "pystr \<Rightarrow> pystr list" where
  "py_split s = words_from [] s"

text \<open>\<open>" ".join(lines)\<close>.\<close>

definition join_spaces :: "pystr list \<Rightarrow> pystr" where
  "join_spaces lines = join [32] lines"

section \<open>Escaping\<close>

lemma str_replace1_Nil: "str_replace1 old new [] = []"
  by (simp add: str_replace1_def)

lemma str_replace1_Cons:
  "str_replace1 old new (c # s) = (if c = old then new else [c]) @ str_replace1 old new s"
  by (simp add: str_replace1_def)

lemma str_replace1_append:
  "str_replace1 old new (s @ t) = str_replace1 old new s @ str_replace1 old new t"
  by (simp add: str_replace1_def)

lemma pdf_escape_Nil: "pdf_escape [] = []"
  by (simp add: pdf_escape_def str_replace1_Nil)

lemma pdf_escape_Cons: "pdf_escape (c # s) = escape_char c @ pdf_escape s"
  by (simp add: pdf_escape_def escape_char_def str_replace1_Cons str_replace1_append
      str_replace1_Nil)

lemma pdf_escape_chars: "pdf_escape s = concat (map escape_char s)"
  by (induction s) (simp_all add: pdf_escape_Nil pdf_escape_Cons)

lemma pdf_unescape_escape_char:
  "pdf_unescape (escape_char c @ t) = c # pdf_unescape t"
proof (cases t)
  case Nil
  then show ?thesis by (simp add: escape_char_def)
next
  case (Cons d u)
  then show ?thesis by (simp add: escape_char_def)
qed

text \<open>
  C5. \<open>pdf_escape\<close> puts a backslash before each backslash, opening and closing
  parenthesis and leaves every other character as it is; un-escaping its result gives
  the original string back, for every string.
\<close>

theorem pdf_escape_roundtrip:
  "pdf_escape s = concat (map escape_char s) \<and> pdf_unescape (pdf_escape s) = s"
proof
  show "pdf_escape s = concat (map escape_char s)"
    by (rule pdf_escape_chars)
  show "pdf_unescape (pdf_escape s) = s"
    by (induction s) (simp_all add: pdf_escape_Nil pdf_escape_Cons pdf_unescape_escape_char)
qed


section \<open>The header defaults and the body of the CV text\<close>

lemma py_strip_empty_iff: "py_strip l = [] \<longleftrightarrow> is_blank_line l"
proof -
  have "dropWhile py_isspace (rev (dropWhile py_isspace l)) = [] \<longleftrightarrow> dropWhile py_isspace l = []"
  proof (cases "dropWhile py_isspace l")
    case Nil
    then show ?thesis by (simp del: dropWhile_eq_Nil_conv)
  next
    case (Cons x xs)
    then have "\<not> py_isspace x" using hd_dropWhile[of py_isspace l] by (metis list.sel(1) list.distinct(1))
    then show ?thesis using Cons by (auto simp: dropWhile_eq_Nil_conv)
  qed
  then show ?thesis
    by (simp add: py_strip_def py_rstrip_def py_lstrip_def is_blank_line_def dropWhile_eq_Nil_conv list_all_iff)
qed

lemma skip_loop:
  "snd (foldl skip_step (k, acc) ls) = acc @ map py_rstrip (without_first_nonblank (2 - k) ls)"
proof (induction ls arbitrary: k acc)
  case Nil
  then show ?case by (cases "2 - k") simp_all
next
  case (Cons l ls)
  show ?case
  proof (cases "is_blank_line l")
    case True
    then have "skip_step (k, acc) l = (k, acc @ [py_rstrip l])"
      by (simp add: skip_step_def py_strip_empty_iff)
    then show ?thesis using Cons[of k "acc @ [py_rstrip l]"] True
      by (cases "2 - k") simp_all
  next
    case False
    show ?thesis
    proof (cases "k + 1 \<le> 2")
      case True
      then have "skip_step (k, acc) l = (k + 1, acc)"
        using False by (simp add: skip_step_def py_strip_empty_iff Let_def)
      moreover from True have "2 - k = Suc (2 - (k + 1))" by simp
      ultimately show ?thesis using Cons[of "k + 1" acc] False
        by (simp del: One_nat_def)
    next
      case k: False
      then have "skip_step (k, acc) l = (k + 1, acc @ [py_rstrip l])"
        using False by (simp add: skip_step_def py_strip_empty_iff Let_def)
      moreover from k have "2 - k = 0" "2 - (k + 1) = 0" by simp_all
      ultimately show ?thesis using Cons[of "k + 1" "acc @ [py_rstrip l]"]
        by simp
    qed
  qed
qed

lemma nonblank_filter: "filter (\<lambda>l. py_strip l \<noteq> []) ls = filter (\<lambda>l. \<not> is_blank_line l) ls"
  by (simp add: py_strip_empty_iff)

text \<open>
  C10. \<open>load_cv_lines\<close> falls back on fixed defaults: with no non-blank line in the
  file the name is \<open>Iro Karavasili\<close> and the subtitle is the default subtitle; with
  exactly one non-blank line that line, stripped, is the name and the subtitle is the
  default; and the body is always the line sequence without its first two non-blank
  lines, each remaining line right-stripped, in the original order.
\<close>

theorem load_cv_lines_defaults:
  "(filter (\<lambda>l. \<not> is_blank_line l) (splitlines t0) = [] \<longrightarrow>
      fst (load_cv_lines t0) = DEFAULT_NAME \<and> fst (snd (load_cv_lines t0)) = DEFAULT_SUBTITLE)
   \<and> (filter (\<lambda>l. \<not> is_blank_line l) (splitlines t1) = [l1] \<longrightarrow>
      fst (load_cv_lines t1) = py_strip l1 \<and> fst (snd (load_cv_lines t1)) = DEFAULT_SUBTITLE)
   \<and> snd (snd (load_cv_lines t)) = map py_rstrip (without_first_nonblank 2 (splitlines t))"
  using skip_loop[of 0 "[]" "splitlines t"]
  by (simp add: load_cv_lines_def load_cv_from_lines_def nonblank_filter Let_def)

theorem load_cv_lines_defaults_witness:
  "filter (\<lambda>l. \<not> is_blank_line l) (splitlines (ascii '' \<newline>'')) = []
   \<and> fst (load_cv_lines (ascii '' \<newline>'')) = DEFAULT_NAME
   \<and> fst (snd (load_cv_lines (ascii '' \<newline>''))) = DEFAULT_SUBTITLE
   \<and> filter (\<lambda>l. \<not> is_blank_line l) (splitlines (ascii ''  Jane Doe \<newline>\<newline>  '')) = [ascii ''  Jane Doe '']
   \<and> fst (load_cv_lines (ascii ''  Jane Doe \<newline>\<newline>  '')) = py_strip (ascii ''  Jane Doe '')
   \<and> fst (snd (load_cv_lines (ascii ''  Jane Doe \<newline>\<newline>  ''))) = DEFAULT_SUBTITLE
   \<and> snd (snd (load_cv_lines (ascii ''A\<newline> \<newline>B\<newline>  c \<newline>\<newline>d''))) = [[], ascii ''  c'', [], ascii ''d'']"
proof -
  have h0: "filter (\<lambda>l. \<not> is_blank_line l) (splitlines (ascii '' \<newline>'')) = []"
    by code_simp
  have h1: "filter (\<lambda>l. \<not> is_blank_line l) (splitlines (ascii ''  Jane Doe \<newline>\<newline>  '')) = [ascii ''  Jane Doe '']"
    by code_simp
  have h2: "map py_rstrip (without_first_nonblank 2 (splitlines (ascii ''A\<newline> \<newline>B\<newline>  c \<newline>\<newline>d''))) = [[], ascii ''  c'', [], ascii ''d'']"
    by code_simp
  show ?thesis
    using load_cv_lines_defaults[of "ascii '' \<newline>''" "ascii ''  Jane Doe \<newline>\<newline>  ''"
        "ascii ''  Jane Doe ''" "ascii ''A\<newline> \<newline>B\<newline>  c \<newline>\<newline>d''"] h0 h1 h2
    by simp
qed


section \<open>The object table and the cross-reference offsets\<close>

lemma map_of_dict_set: "map_of (dict_set k v d) = (map_of d)(k \<mapsto> v)"
  by (induction d) (auto simp: fun_eq_iff)

lemma keys_dict_set: "set (dict_keys (dict_set k v d)) = insert k (set (dict_keys d))"
proof -
  have "set (dict_keys (dict_set k v d)) = dom (map_of (dict_set k v d))"
    by (simp add: dict_keys_def dom_map_of_conv_image_fst)
  also have "\<dots> = insert k (dom (map_of d))"
    by (simp add: map_of_dict_set)
  also have "\<dots> = insert k (set (dict_keys d))"
    by (simp add: dict_keys_def dom_map_of_conv_image_fst)
  finally show ?thesis .
qed

lemma distinct_dict_set: "distinct (dict_keys d) \<Longrightarrow> distinct (dict_keys (dict_set k v d))"
proof (induction d)
  case Nil
  then show ?case by (simp add: dict_keys_def)
next
  case (Cons a d)
  have "set (map fst (dict_set k v d)) = insert k (set (map fst d))"
    using keys_dict_set[of k v d] by (simp add: dict_keys_def)
  with Cons show ?case by (cases a) (auto simp: dict_keys_def)
qed

lemma add_page_eq:
  "add_page (objs, ids, n) s =
     (dict_set n (page_object (n + 1)) (dict_set (n + 1) (content_object s) objs), ids @ [n], n + 2)"
  by (simp add: add_page_def Let_def)

lemma build_loop:
  "\<exists>objs'. foldl add_page (objs, ids, n) ss = (objs', ids @ map (\<lambda>k. n + 2 * k) [0..<length ss], n + 2 * length ss)
     \<and> set (dict_keys objs') = set (dict_keys objs) \<union> {n..<n + 2 * length ss}
     \<and> (distinct (dict_keys objs) \<longrightarrow> distinct (dict_keys objs'))
     \<and> (\<forall>k<length ss. map_of objs' (n + 2 * k) = Some (page_object (n + 2 * k + 1))
                        \<and> map_of objs' (n + 2 * k + 1) = Some (content_object (ss ! k)))
     \<and> (\<forall>i. i < n \<longrightarrow> map_of objs' i = map_of objs i)"
proof (induction ss rule: rev_induct)
  case Nil
  then show ?case by simp
next
  case (snoc s ss)
  then obtain objs' where st: "foldl add_page (objs, ids, n) ss = (objs', ids @ map (\<lambda>k. n + 2 * k) [0..<length ss], n + 2 * length ss)"
    and keys: "set (dict_keys objs') = set (dict_keys objs) \<union> {n..<n + 2 * length ss}"
    and dist: "distinct (dict_keys objs) \<longrightarrow> distinct (dict_keys objs')"
    and ents: "\<forall>k<length ss. map_of objs' (n + 2 * k) = Some (page_object (n + 2 * k + 1))
                        \<and> map_of objs' (n + 2 * k + 1) = Some (content_object (ss ! k))"
    and old: "\<forall>i. i < n \<longrightarrow> map_of objs' i = map_of objs i"
    by blast
  let ?m = "n + 2 * length ss"
  let ?o = "dict_set ?m (page_object (?m + 1)) (dict_set (?m + 1) (content_object s) objs')"
  have 1: "foldl add_page (objs, ids, n) (ss @ [s]) = (?o, ids @ map (\<lambda>k. n + 2 * k) [0..<length (ss @ [s])], n + 2 * length (ss @ [s]))"
    by (simp add: st add_page_eq)
  have 2: "set (dict_keys ?o) = set (dict_keys objs) \<union> {n..<n + 2 * length (ss @ [s])}"
    by (auto simp: keys_dict_set keys)
  have 3: "distinct (dict_keys objs) \<longrightarrow> distinct (dict_keys ?o)"
    using dist by (simp add: distinct_dict_set)
  have 4: "\<forall>k<length (ss @ [s]). map_of ?o (n + 2 * k) = Some (page_object (n + 2 * k + 1))
                        \<and> map_of ?o (n + 2 * k + 1) = Some (content_object ((ss @ [s]) ! k))"
  proof (intro allI impI)
    fix k assume k: "k < length (ss @ [s])"
    show "map_of ?o (n + 2 * k) = Some (page_object (n + 2 * k + 1))
                        \<and> map_of ?o (n + 2 * k + 1) = Some (content_object ((ss @ [s]) ! k))"
    proof (cases "k < length ss")
      case True
      then have ne: "n + 2 * k \<noteq> ?m" "n + 2 * k \<noteq> ?m + 1" "n + 2 * k + 1 \<noteq> ?m" "n + 2 * k + 1 \<noteq> ?m + 1"
        by presburger+
      show ?thesis using ents True ne by (simp add: map_of_dict_set nth_append)
    next
      case False
      with k have "k = length ss" by simp
      then show ?thesis by (simp add: map_of_dict_set)
    qed
  qed
  have 5: "\<forall>i. i < n \<longrightarrow> map_of ?o i = map_of objs i"
    using old by (simp add: map_of_dict_set)
  from 1 2 3 4 5 show ?case by blast
qed


lemma build_objects_facts:
  fixes ss :: "pystr list"
  defines "objs \<equiv> fst (build_objects ss)"
  shows "set (dict_keys objs) = {1..<5 + 2 * length ss}"
    and "distinct (dict_keys objs)"
    and "snd (build_objects ss) = map (\<lambda>k. 5 + 2 * k) [0..<length ss]"
    and "map_of objs 1 = Some catalog_object"
    and "map_of objs 2 = Some (pages_object (snd (build_objects ss)))"
    and "map_of objs 3 = Some font1_object"
    and "map_of objs 4 = Some font2_object"
    and "\<forall>k<length ss. map_of objs (5 + 2 * k) = Some (page_object (6 + 2 * k))
            \<and> map_of objs (6 + 2 * k) = Some (content_object (ss ! k))"
proof -
  let ?o0 = "[(1, catalog_object), (3, font1_object), (4, font2_object)]"
  obtain objs' where st: "foldl add_page (?o0, [], 5) ss = (objs', [] @ map (\<lambda>k. 5 + 2 * k) [0..<length ss], 5 + 2 * length ss)"
    and keys: "set (dict_keys objs') = set (dict_keys ?o0) \<union> {5..<5 + 2 * length ss}"
    and dist: "distinct (dict_keys ?o0) \<longrightarrow> distinct (dict_keys objs')"
    and ents: "\<forall>k<length ss. map_of objs' (5 + 2 * k) = Some (page_object (5 + 2 * k + 1))
                        \<and> map_of objs' (5 + 2 * k + 1) = Some (content_object (ss ! k))"
    and old: "\<forall>i. i < 5 \<longrightarrow> map_of objs' i = map_of ?o0 i"
    using build_loop[of ?o0 "[]" 5 ss] by blast
  have b: "build_objects ss = (dict_set 2 (pages_object (map (\<lambda>k. 5 + 2 * k) [0..<length ss])) objs', map (\<lambda>k. 5 + 2 * k) [0..<length ss])"
    using st by (simp add: build_objects_def Let_def)
  have o: "objs = dict_set 2 (pages_object (map (\<lambda>k. 5 + 2 * k) [0..<length ss])) objs'"
    by (simp add: objs_def b)
  show "set (dict_keys objs) = {1..<5 + 2 * length ss}"
  proof -
    have "set (dict_keys ?o0) = {1, 3, 4}" by (simp add: dict_keys_def)
    then have "set (dict_keys objs) = insert 2 ({1, 3, 4} \<union> {5..<5 + 2 * length ss})"
      unfolding o by (simp only: keys_dict_set keys)
    also have "\<dots> = {1..<5 + 2 * length ss}" by auto
    finally show ?thesis .
  qed
  show "distinct (dict_keys objs)"
  proof -
    have "distinct (dict_keys ?o0)" by (simp add: dict_keys_def)
    with dist have "distinct (dict_keys objs')" by blast
    then show ?thesis unfolding o by (rule distinct_dict_set)
  qed
  show "snd (build_objects ss) = map (\<lambda>k. 5 + 2 * k) [0..<length ss]"
    by (simp add: b)
  show "map_of objs 1 = Some catalog_object" "map_of objs 3 = Some font1_object"
    "map_of objs 4 = Some font2_object"
    unfolding o using old by (simp_all add: map_of_dict_set)
  show "map_of objs 2 = Some (pages_object (snd (build_objects ss)))"
    unfolding o by (simp add: map_of_dict_set b)
  show "\<forall>k<length ss. map_of objs (5 + 2 * k) = Some (page_object (6 + 2 * k))
            \<and> map_of objs (6 + 2 * k) = Some (content_object (ss ! k))"
    unfolding o using ents by (simp add: map_of_dict_set)
qed

lemma sorted_keys:
  "sort (dict_keys (fst (build_objects ss))) = [1..<5 + 2 * length ss]"
proof -
  have "sort (dict_keys (fst (build_objects ss))) = sorted_list_of_set (set (dict_keys (fst (build_objects ss))))"
    using build_objects_facts(2)[of ss] by (simp add: sorted_list_of_set_sort_remdups distinct_remdups_id)
  then show ?thesis by (simp add: build_objects_facts(1))
qed

lemma emit_loop:
  assumes "distinct ids" and "\<forall>i\<in>set ids. map_of objs i \<noteq> None"
  shows "\<exists>parts' offs'. emit_objects objs ids (parts, offs) = Inr (parts', offs')
      \<and> concat parts' = concat parts @ concat (map (object_text objs) ids)
      \<and> (\<forall>i. map_of offs' i =
            (if i \<in> set ids
             then Some (length (concat parts) + length (concat (map (object_text objs) (takeWhile (\<lambda>j. j \<noteq> i) ids))))
             else map_of offs i))"
  using assms
proof (induction ids arbitrary: parts offs)
  case Nil
  then show ?case by simp
next
  case (Cons a ids)
  from Cons.prems obtain body where body: "map_of objs a = Some body" by auto
  let ?parts = "(parts @ [obj_token a]) @ [body] @ [''\<newline>endobj\<newline>'']"
  let ?offs = "dict_set a (sum_list (map length parts)) offs"
  have step: "emit_objects objs (a # ids) (parts, offs) = emit_objects objs ids (?parts, ?offs)"
    by (simp add: body Let_def)
  from Cons.prems have d: "distinct ids" and m: "\<forall>i\<in>set ids. map_of objs i \<noteq> None" and a: "a \<notin> set ids"
    by auto
  from Cons.IH[OF d m, of ?parts ?offs] obtain parts' offs' where
    r: "emit_objects objs ids (?parts, ?offs) = Inr (parts', offs')"
    and c: "concat parts' = concat ?parts @ concat (map (object_text objs) ids)"
    and o: "\<forall>i. map_of offs' i =
            (if i \<in> set ids
             then Some (length (concat ?parts) + length (concat (map (object_text objs) (takeWhile (\<lambda>j. j \<noteq> i) ids))))
             else map_of ?offs i)"
    by blast
  have t: "object_text objs a = obj_token a @ body @ ''\<newline>endobj\<newline>''"
    by (simp add: object_text_def dict_get_def body)
  have c': "concat parts' = concat parts @ concat (map (object_text objs) (a # ids))"
    using c by (simp add: t)
  have o': "\<forall>i. map_of offs' i =
            (if i \<in> set (a # ids)
             then Some (length (concat parts) + length (concat (map (object_text objs) (takeWhile (\<lambda>j. j \<noteq> i) (a # ids)))))
             else map_of offs i)"
  proof
    fix i
    show "map_of offs' i =
            (if i \<in> set (a # ids)
             then Some (length (concat parts) + length (concat (map (object_text objs) (takeWhile (\<lambda>j. j \<noteq> i) (a # ids)))))
             else map_of offs i)"
    proof (cases "i \<in> set ids")
      case True
      with a have "i \<noteq> a" by auto
      with True o show ?thesis by (simp add: t)
    next
      case False
      then show ?thesis using o by (simp add: map_of_dict_set length_concat)
    qed
  qed
  from step r c' o' show ?case by simp
qed

lemma py_max_upt: "1 < m \<Longrightarrow> py_max [1..<m] = Inr (m - 1)"
proof -
  assume m: "1 < m"
  then have u: "[1..<m] = 1 # [2..<m]" by (simp add: upt_conv_Cons numeral_2_eq_2)
  have "fold max [2..<m] 1 = Max (set (1 # [2..<m]))" by (simp only: Max.set_eq_fold)
  also have "\<dots> = Max {1..<m}" using u by (metis set_upt)
  also have "\<dots> = m - 1"
  proof (rule Max_eqI)
    show "finite {1..<m}" by simp
    show "\<And>y. y \<in> {1..<m} \<Longrightarrow> y \<le> m - 1" by auto
    show "m - 1 \<in> {1..<m}" using m by auto
  qed
  finally have "fold max [2..<m] 1 = m - 1" .
  then show ?thesis by (simp only: u py_max.simps)
qed

lemma takeWhile_upt: "a \<le> i \<Longrightarrow> i < b \<Longrightarrow> takeWhile (\<lambda>j. j \<noteq> i) [a..<b] = [a..<i]"
proof -
  assume a: "a \<le> i" and b: "i < b"
  then have "[a..<b] = [a..<i] @ i # [Suc i..<b]"
    using upt_add_eq_append[of a i "b - i"] by (simp add: upt_conv_Cons)
  then have "takeWhile (\<lambda>j. j \<noteq> i) [a..<b] = takeWhile (\<lambda>j. j \<noteq> i) ([a..<i] @ i # [Suc i..<b])"
    by simp
  also have "\<dots> = [a..<i] @ takeWhile (\<lambda>j. j \<noteq> i) (i # [Suc i..<b])"
    by (rule takeWhile_append2) simp
  finally show ?thesis by simp
qed

lemma digit_value_digit_char: "d < 10 \<Longrightarrow> digit_value (digit_char d) = d"
proof -
  assume "d < 10"
  then have "d \<in> {0, 1, 2, 3, 4, 5, 6, 7, 8, 9}" by auto
  then show ?thesis by (auto simp: digit_value_def digit_char_def)
qed

lemma read_nat_snoc: "read_nat (ds @ [c]) = 10 * read_nat ds + digit_value c"
  by (simp add: read_nat_def)

lemma read_nat_str_nat: "read_nat (str_nat n) = n"
proof (induction n rule: str_nat.induct)
  case (1 n)
  show ?case
  proof (cases "n < 10")
    case True
    then show ?thesis
      using read_nat_snoc[of "[]" "digit_char n"]
      by (simp add: str_nat.simps[of n] digit_value_digit_char read_nat_def)
  next
    case False
    then have "read_nat (str_nat (n div 10)) = n div 10" using 1 by simp
    then show ?thesis using False
      by (simp add: str_nat.simps[of n] read_nat_snoc digit_value_digit_char)
  qed
qed

lemma read_nat_zeros: "read_nat (replicate k (CHR ''0'') @ ds) = read_nat ds"
proof -
  have z: "foldl (\<lambda>acc c. 10 * acc + digit_value c) 0 (replicate k (CHR ''0'')) = 0"
    by (induction k) (simp_all add: digit_value_def)
  show ?thesis by (simp add: read_nat_def z)
qed

lemma read_nat_fmt_010d: "read_nat (fmt_010d n) = n"
  by (simp add: fmt_010d_def read_nat_zeros read_nat_str_nat)

lemma length_str_nat: "0 < k \<Longrightarrow> n < 10 ^ k \<Longrightarrow> length (str_nat n) \<le> k"
proof (induction n arbitrary: k rule: str_nat.induct)
  case (1 n)
  show ?case
  proof (cases "n < 10")
    case True
    then show ?thesis using "1.prems" by (simp add: str_nat.simps[of n])
  next
    case False
    with "1.prems" obtain j where j: "k = Suc j" by (cases k) auto
    have "0 < j" using False "1.prems" j by (cases j) auto
    moreover have "n div 10 < 10 ^ j" using "1.prems" j by (simp add: less_mult_imp_div_less)
    ultimately have "length (str_nat (n div 10)) \<le> j" using 1 False by simp
    then show ?thesis using False j by (simp add: str_nat.simps[of n])
  qed
qed

lemma length_str_nat_pos: "0 < length (str_nat n)"
  by (cases "n < 10") (simp_all add: str_nat.simps[of n])

lemma length_fmt_010d: "n < 10 ^ 10 \<Longrightarrow> length (fmt_010d n) = 10"
  using length_str_nat[of 10 n] by (simp add: fmt_010d_def)

lemma length_encode_latin1_replace: "length (encode_latin1_replace s) = length s"
  by (simp add: encode_latin1_replace_def)




lemma write_pdf_parts_eq:
  "\<exists>parts offs. write_pdf_parts ss = Inr (parts, offs, 4 + 2 * length ss)
      \<and> concat parts = file_body ss
      \<and> (\<forall>i. map_of offs i =
            (if 1 \<le> i \<and> i < 5 + 2 * length ss then Some (object_offset ss i)
             else map_of [(0, 0)] i))"
proof -
  let ?objs = "fst (build_objects ss)"
  let ?M = "5 + 2 * length ss"
  have ord: "sort (dict_keys ?objs) = [1..<?M]" by (rule sorted_keys)
  have dom: "\<forall>i\<in>set [1..<?M]. map_of ?objs i \<noteq> None"
  proof
    fix i assume "i \<in> set [1..<?M]"
    then have "i \<in> set (dict_keys ?objs)" by (simp add: build_objects_facts(1))
    then show "map_of ?objs i \<noteq> None"
      by (simp add: dict_keys_def map_of_eq_None_iff)
  qed
  from emit_loop[OF distinct_upt dom, of "[pdf_header]" "[(0, 0)]"]
  obtain parts offs where
    e: "emit_objects ?objs [1..<?M] ([pdf_header], [(0, 0)]) = Inr (parts, offs)"
    and c: "concat parts = concat [pdf_header] @ concat (map (object_text ?objs) [1..<?M])"
    and o: "\<forall>i. map_of offs i =
            (if i \<in> set [1..<?M]
             then Some (length (concat [pdf_header]) + length (concat (map (object_text ?objs) (takeWhile (\<lambda>j. j \<noteq> i) [1..<?M]))))
             else map_of [(0, 0)] i)"
    by blast
  have mx: "py_max [1..<?M] = Inr (4 + 2 * length ss)"
    using py_max_upt[of ?M] by simp
  have 1: "write_pdf_parts ss = Inr (parts, offs, 4 + 2 * length ss)"
    unfolding write_pdf_parts_def Let_def ord by (simp only: e mx sum.case prod.case)
  have 2: "concat parts = file_body ss"
    using c by (simp add: file_body_def)
  have 3: "\<forall>i. map_of offs i =
            (if 1 \<le> i \<and> i < ?M then Some (object_offset ss i) else map_of [(0, 0)] i)"
  proof
    fix i
    show "map_of offs i =
            (if 1 \<le> i \<and> i < ?M then Some (object_offset ss i) else map_of [(0, 0)] i)"
    proof (cases "1 \<le> i \<and> i < ?M")
      case True
      then have "takeWhile (\<lambda>j. j \<noteq> i) [1..<?M] = [1..<i]" by (simp add: takeWhile_upt)
      with True o show ?thesis by (simp add: object_offset_def del: upt.simps)
    next
      case False
      with o show ?thesis by (simp del: upt.simps)
    qed
  qed
  from 1 2 3 show ?thesis by blast
qed

lemma recorded_offsets_eq:
  "1 \<le> i \<Longrightarrow> i < 5 + 2 * length ss \<Longrightarrow> dict_get (recorded_offsets ss) i 0 = object_offset ss i"
proof -
  assume i: "1 \<le> i" "i < 5 + 2 * length ss"
  obtain parts offs where p: "write_pdf_parts ss = Inr (parts, offs, 4 + 2 * length ss)"
    and o: "\<forall>i. map_of offs i =
            (if 1 \<le> i \<and> i < 5 + 2 * length ss then Some (object_offset ss i)
             else map_of [(0, 0)] i)"
    using write_pdf_parts_eq[of ss] by blast
  have "recorded_offsets ss = offs" by (simp add: recorded_offsets_def p)
  then show ?thesis using o i by (simp add: dict_get_def)
qed

lemma write_pdf_eq:
  "write_pdf ss = Inr (file_body ss
      @ concat (xref_section (recorded_offsets ss) (4 + 2 * length ss))
      @ trailer (4 + 2 * length ss) (length (file_body ss)))"
proof -
  obtain parts offs where p: "write_pdf_parts ss = Inr (parts, offs, 4 + 2 * length ss)"
    and c: "concat parts = file_body ss"
    using write_pdf_parts_eq[of ss] by blast
  have r: "recorded_offsets ss = offs" by (simp add: recorded_offsets_def p)
  have l: "sum_list (map length parts) = length (file_body ss)"
    using c by (simp add: length_concat[symmetric])
  show ?thesis by (simp add: write_pdf_def p Let_def r l c)
qed

lemma file_body_split:
  assumes "1 \<le> i" "i < 5 + 2 * length ss"
  shows "\<exists>post. file_body ss = take (object_offset ss i) (file_body ss) @ object_text (fst (build_objects ss)) i @ post
     \<and> length (take (object_offset ss i) (file_body ss)) = object_offset ss i"
proof -
  let ?ot = "object_text (fst (build_objects ss))"
  let ?M = "5 + 2 * length ss"
  have "[1..<?M] = [1..<i] @ i # [Suc i..<?M]"
    using assms upt_add_eq_append[of 1 i "?M - i"] by (simp add: upt_conv_Cons)
  then have "file_body ss = (pdf_header @ concat (map ?ot [1..<i])) @ ?ot i @ concat (map ?ot [Suc i..<?M])"
    unfolding file_body_def by (simp del: upt.simps)
  then show ?thesis
    by (metis append_eq_conv_conj object_offset_def append.assoc length_take min.absorb2 length_append le_add1)
qed

lemma token_at_offset:
  assumes "1 \<le> i" "i < 5 + 2 * length ss"
  shows "take (length (obj_token i)) (drop (object_offset ss i) (file_body ss @ rest)) = obj_token i"
proof -
  obtain post where f: "file_body ss = take (object_offset ss i) (file_body ss) @ object_text (fst (build_objects ss)) i @ post"
    and l: "length (take (object_offset ss i) (file_body ss)) = object_offset ss i"
    using file_body_split[OF assms] by blast
  let ?pre = "take (object_offset ss i) (file_body ss)"
  have "drop (object_offset ss i) (file_body ss @ rest)
      = drop (length ?pre) (?pre @ object_text (fst (build_objects ss)) i @ post @ rest)"
    using f l by (metis append.assoc)
  also have "\<dots> = obj_token i @ dict_get (fst (build_objects ss)) i [] @ ''\<newline>endobj\<newline>'' @ post @ rest"
    by (simp add: object_text_def)
  finally show ?thesis by simp
qed



lemma length_str_nat_ge: "10 ^ k \<le> n \<Longrightarrow> k < length (str_nat n)"
proof (induction n arbitrary: k rule: str_nat.induct)
  case (1 n)
  show ?case
  proof (cases "n < 10")
    case True
    have "k = 0"
    proof (cases k)
      case (Suc j)
      have "(1::nat) \<le> 10 ^ j" by simp
      then have "(10::nat) \<le> 10 * 10 ^ j" by simp
      with "1.prems" True Suc show ?thesis by simp
    qed simp
    then show ?thesis using True by (simp add: str_nat.simps[of n])
  next
    case False
    show ?thesis
    proof (cases k)
      case 0
      then show ?thesis using False by (simp add: str_nat.simps[of n])
    next
      case (Suc j)
      with "1.prems" have "10 ^ j \<le> n div 10" by (simp add: less_eq_div_iff_mult_less_eq mult.commute)
      then have "j < length (str_nat (n div 10))" using 1 False by simp
      then show ?thesis using False Suc by (simp add: str_nat.simps[of n])
    qed
  qed
qed

lemma length_fmt_010d_iff: "length (fmt_010d n) = 10 \<longleftrightarrow> n < 10 ^ 10"
proof
  assume l: "length (fmt_010d n) = 10"
  show "n < 10 ^ 10"
  proof (rule ccontr)
    assume "\<not> n < 10 ^ 10"
    then have "10 < length (str_nat n)" using length_str_nat_ge[of 10 n] by simp
    with l show False by (simp add: fmt_010d_def)
  qed
next
  assume "n < 10 ^ 10"
  then show "length (fmt_010d n) = 10" by (rule length_fmt_010d)
qed

lemma object_text_spelled:
  "object_text objs = (\<lambda>j. str_nat j @ '' 0 obj\<newline>'' @ dict_get objs j [] @ ''\<newline>endobj\<newline>'')"
  by (rule ext) (simp add: object_text_def obj_token_def)

lemma object_at_offset:
  assumes "1 \<le> i" "i < 5 + 2 * length ss"
  shows "\<exists>post. write_pdf ss = Inr ((pdf_header @ concat (map (object_text (fst (build_objects ss))) [1..<i]))
            @ object_text (fst (build_objects ss)) i @ post)"
proof -
  let ?ot = "object_text (fst (build_objects ss))"
  let ?M = "5 + 2 * length ss"
  have "[1..<?M] = [1..<i] @ i # [Suc i..<?M]"
    using assms upt_add_eq_append[of 1 i "?M - i"] by (simp add: upt_conv_Cons)
  then have "file_body ss = (pdf_header @ concat (map ?ot [1..<i])) @ ?ot i @ concat (map ?ot [Suc i..<?M])"
    unfolding file_body_def by (simp del: upt.simps)
  then show ?thesis using write_pdf_eq[of ss] by (simp del: upt.simps)
qed

lemma offset_past_first_stream:
  "length s \<le> object_offset [s, t] 7"
proof -
  let ?ot = "object_text (fst (build_objects [s, t]))"
  have m: "map_of (fst (build_objects [s, t])) (6 + 2 * 0) = Some (content_object ([s, t] ! 0))"
    using build_objects_facts(8)[of "[s, t]"] by (metis length_Cons zero_less_Suc)
  have "length s \<le> length (content_object s)"
    by (simp add: content_object_def Let_def length_encode_latin1_replace)
  also have "\<dots> \<le> length (?ot 6)"
    using m by (simp add: object_text_def dict_get_def)
  also have "\<dots> \<le> length (concat (map ?ot [1..<7]))"
  proof -
    have "[1..<7] = [1..<6] @ [6::nat]" by (simp add: upt_rec)
    then show ?thesis by (simp del: upt.simps)
  qed
  also have "\<dots> \<le> object_offset [s, t] 7"
    by (simp add: object_offset_def del: upt.simps)
  finally show ?thesis .
qed

text \<open>
  The offsets are written with \<open>:010d\<close>, which pads to ten digits and never cuts: in
  a file whose first page stream has \<open>10^10\<close> characters, the offset recorded for
  object 7 has more than ten digits.
\<close>

theorem xref_offset_eleven_digits:
  "length (fmt_010d (dict_get (recorded_offsets [replicate (10 ^ 10) 0, []]) 7 0)) \<noteq> 10"
proof -
  let ?ss = "[replicate (10 ^ 10) 0, []] :: pystr list"
  have "dict_get (recorded_offsets ?ss) 7 0 = object_offset ?ss 7"
    by (rule recorded_offsets_eq) simp_all
  moreover have "10 ^ 10 \<le> object_offset ?ss 7"
    using offset_past_first_stream[of "replicate (10 ^ 10) 0" "[]"] by (simp only: length_replicate)
  ultimately have "\<not> dict_get (recorded_offsets ?ss) 7 0 < 10 ^ 10" by simp
  then show ?thesis by (simp only: length_fmt_010d_iff not_False_eq_True)
qed

text \<open>
  C2. In every file \<open>write_pdf\<close> produces the object ids are dense from 1: the
  catalog is 1, the page tree 2, the two fonts 3 and 4, and page \<open>k\<close> (from 0) has
  the page object \<open>5 + 2k\<close> and the content stream \<open>6 + 2k\<close>. The cross-reference
  table holds the free entry of object 0 and one entry for every id from 1 to the
  largest. The offset recorded for an id is the number of bytes of the file before that
  object, that is the header and the objects of all smaller ids, and the object starts
  there with its token \<open><id> 0 obj\<close> and a line feed. The entry holds that offset in
  decimal, padded with zeros to at least ten digits: exactly ten if and only if the
  offset is below \<open>10^10\<close>.
\<close>

theorem xref_offsets_exact:
  "sort (dict_keys (fst (build_objects ss))) = [1..<5 + 2 * length ss]
   \<and> map_of (fst (build_objects ss)) 1 = Some catalog_object
   \<and> map_of (fst (build_objects ss)) 2 = Some (pages_object (snd (build_objects ss)))
   \<and> map_of (fst (build_objects ss)) 3 = Some font1_object
   \<and> map_of (fst (build_objects ss)) 4 = Some font2_object
   \<and> snd (build_objects ss) = map (\<lambda>k. 5 + 2 * k) [0..<length ss]
   \<and> (\<forall>k<length ss.
         map_of (fst (build_objects ss)) (5 + 2 * k) = Some (page_object (6 + 2 * k))
         \<and> map_of (fst (build_objects ss)) (6 + 2 * k) = Some (content_object (ss ! k)))
   \<and> write_pdf ss = Inr ((pdf_header
          @ concat (map (\<lambda>j. str_nat j @ '' 0 obj\<newline>'' @ dict_get (fst (build_objects ss)) j []
                               @ ''\<newline>endobj\<newline>'') [1..<5 + 2 * length ss]))
        @ (''xref\<newline>0 '' @ str_nat (5 + 2 * length ss) @ ''\<newline>'')
        @ ''0000000000 65535 f \<newline>''
        @ concat (map (\<lambda>i. fmt_010d (dict_get (recorded_offsets ss) i 0) @ '' 00000 n \<newline>'')
                    [1..<5 + 2 * length ss])
        @ trailer (4 + 2 * length ss)
            (length (pdf_header
               @ concat (map (\<lambda>j. str_nat j @ '' 0 obj\<newline>'' @ dict_get (fst (build_objects ss)) j []
                                    @ ''\<newline>endobj\<newline>'') [1..<5 + 2 * length ss]))))
   \<and> (\<forall>i\<in>{1..<5 + 2 * length ss}.
         dict_get (recorded_offsets ss) i 0
            = length (pdf_header
                @ concat (map (\<lambda>j. str_nat j @ '' 0 obj\<newline>'' @ dict_get (fst (build_objects ss)) j []
                                     @ ''\<newline>endobj\<newline>'') [1..<i]))
         \<and> (\<exists>post. write_pdf ss = Inr ((pdf_header
                @ concat (map (\<lambda>j. str_nat j @ '' 0 obj\<newline>'' @ dict_get (fst (build_objects ss)) j []
                                     @ ''\<newline>endobj\<newline>'') [1..<i]))
              @ (str_nat i @ '' 0 obj\<newline>'') @ dict_get (fst (build_objects ss)) i []
              @ ''\<newline>endobj\<newline>'' @ post))
         \<and> read_nat (fmt_010d (dict_get (recorded_offsets ss) i 0)) = dict_get (recorded_offsets ss) i 0
         \<and> (length (fmt_010d (dict_get (recorded_offsets ss) i 0)) = 10
              \<longleftrightarrow> dict_get (recorded_offsets ss) i 0 < 10 ^ 10))"
proof (intro conjI)
  let ?objs = "fst (build_objects ss)"
  let ?sp = "\<lambda>j. str_nat j @ '' 0 obj\<newline>'' @ dict_get ?objs j [] @ ''\<newline>endobj\<newline>''"
  have sp: "object_text ?objs = ?sp" by (rule object_text_spelled)
  show "sort (dict_keys (fst (build_objects ss))) = [1..<5 + 2 * length ss]"
    by (rule sorted_keys)
  show "map_of (fst (build_objects ss)) 1 = Some catalog_object"
    by (rule build_objects_facts)
  show "map_of (fst (build_objects ss)) 2 = Some (pages_object (snd (build_objects ss)))"
    by (rule build_objects_facts)
  show "map_of (fst (build_objects ss)) 3 = Some font1_object"
    by (rule build_objects_facts)
  show "map_of (fst (build_objects ss)) 4 = Some font2_object"
    by (rule build_objects_facts)
  show "snd (build_objects ss) = map (\<lambda>k. 5 + 2 * k) [0..<length ss]"
    by (rule build_objects_facts)
  show "\<forall>k<length ss.
         map_of (fst (build_objects ss)) (5 + 2 * k) = Some (page_object (6 + 2 * k))
         \<and> map_of (fst (build_objects ss)) (6 + 2 * k) = Some (content_object (ss ! k))"
    by (rule build_objects_facts)
  have x: "concat (xref_section (recorded_offsets ss) (4 + 2 * length ss))
      = (''xref\<newline>0 '' @ str_nat (5 + 2 * length ss) @ ''\<newline>'')
        @ ''0000000000 65535 f \<newline>''
        @ concat (map (\<lambda>i. fmt_010d (dict_get (recorded_offsets ss) i 0) @ '' 00000 n \<newline>'')
                    [1..<5 + 2 * length ss])"
  proof -
    have "4 + 2 * length ss + 1 = 5 + 2 * length ss" by simp
    moreover have "xref_entry (recorded_offsets ss)
        = (\<lambda>i. fmt_010d (dict_get (recorded_offsets ss) i 0) @ '' 00000 n \<newline>'')"
      by (rule ext) (simp add: xref_entry_def)
    ultimately show ?thesis
      unfolding xref_section_def by (simp del: upt.simps)
  qed
  have fb: "file_body ss = pdf_header @ concat (map ?sp [1..<5 + 2 * length ss])"
    unfolding file_body_def sp ..
  show "write_pdf ss = Inr ((pdf_header @ concat (map ?sp [1..<5 + 2 * length ss]))
        @ (''xref\<newline>0 '' @ str_nat (5 + 2 * length ss) @ ''\<newline>'')
        @ ''0000000000 65535 f \<newline>''
        @ concat (map (\<lambda>i. fmt_010d (dict_get (recorded_offsets ss) i 0) @ '' 00000 n \<newline>'')
                    [1..<5 + 2 * length ss])
        @ trailer (4 + 2 * length ss) (length (pdf_header @ concat (map ?sp [1..<5 + 2 * length ss]))))"
    using write_pdf_eq[of ss] x fb by (simp only: append.assoc)
  show "\<forall>i\<in>{1..<5 + 2 * length ss}.
         dict_get (recorded_offsets ss) i 0 = length (pdf_header @ concat (map ?sp [1..<i]))
         \<and> (\<exists>post. write_pdf ss = Inr ((pdf_header @ concat (map ?sp [1..<i]))
              @ (str_nat i @ '' 0 obj\<newline>'') @ dict_get ?objs i []
              @ ''\<newline>endobj\<newline>'' @ post))
         \<and> read_nat (fmt_010d (dict_get (recorded_offsets ss) i 0)) = dict_get (recorded_offsets ss) i 0
         \<and> (length (fmt_010d (dict_get (recorded_offsets ss) i 0)) = 10
              \<longleftrightarrow> dict_get (recorded_offsets ss) i 0 < 10 ^ 10)"
  proof
    fix i assume i: "i \<in> {1..<5 + 2 * length ss}"
    then have i1: "1 \<le> i" and i2: "i < 5 + 2 * length ss" by auto
    have a: "dict_get (recorded_offsets ss) i 0 = length (pdf_header @ concat (map ?sp [1..<i]))"
      using recorded_offsets_eq[OF i1 i2] unfolding object_offset_def sp .
    obtain post where "write_pdf ss = Inr ((pdf_header @ concat (map (object_text ?objs) [1..<i]))
            @ object_text ?objs i @ post)"
      using object_at_offset[OF i1 i2] by blast
    then have "write_pdf ss = Inr ((pdf_header @ concat (map ?sp [1..<i]))
              @ (str_nat i @ '' 0 obj\<newline>'') @ dict_get ?objs i []
              @ ''\<newline>endobj\<newline>'' @ post)"
      unfolding sp by (simp only: append.assoc)
    then have b: "\<exists>post. write_pdf ss = Inr ((pdf_header @ concat (map ?sp [1..<i]))
              @ (str_nat i @ '' 0 obj\<newline>'') @ dict_get ?objs i []
              @ ''\<newline>endobj\<newline>'' @ post)" by blast
    have c: "read_nat (fmt_010d (dict_get (recorded_offsets ss) i 0)) = dict_get (recorded_offsets ss) i 0"
      by (rule read_nat_fmt_010d)
    have d: "length (fmt_010d (dict_get (recorded_offsets ss) i 0)) = 10
              \<longleftrightarrow> dict_get (recorded_offsets ss) i 0 < 10 ^ 10"
      by (rule length_fmt_010d_iff)
    from a b c d show "dict_get (recorded_offsets ss) i 0 = length (pdf_header @ concat (map ?sp [1..<i]))
         \<and> (\<exists>post. write_pdf ss = Inr ((pdf_header @ concat (map ?sp [1..<i]))
              @ (str_nat i @ '' 0 obj\<newline>'') @ dict_get ?objs i []
              @ ''\<newline>endobj\<newline>'' @ post))
         \<and> read_nat (fmt_010d (dict_get (recorded_offsets ss) i 0)) = dict_get (recorded_offsets ss) i 0
         \<and> (length (fmt_010d (dict_get (recorded_offsets ss) i 0)) = 10
              \<longleftrightarrow> dict_get (recorded_offsets ss) i 0 < 10 ^ 10)"
      by blast
  qed
qed

theorem xref_offsets_exact_witness:
  "\<exists>pre post.
      write_pdf [ascii ''BT''] = Inr (pre
         @ ''6 0 obj\<newline><< /Length 2 >>\<newline>stream\<newline>BTendstream\<newline>endobj\<newline>'' @ post)
      \<and> length pre = 402
      \<and> dict_get (recorded_offsets [ascii ''BT'']) 6 0 = 402
      \<and> fmt_010d 402 = ''0000000402''
      \<and> sort (dict_keys (fst (build_objects [ascii ''BT'']))) = [1, 2, 3, 4, 5, 6]
      \<and> map_of (fst (build_objects [ascii ''BT''])) 5 = Some (page_object 6)
      \<and> map_of (fst (build_objects [ascii ''BT''])) 6 = Some (content_object (ascii ''BT''))"
proof -
  let ?ss = "[ascii ''BT'']"
  let ?pre = "pdf_header
        @ concat (map (\<lambda>j. str_nat j @ '' 0 obj\<newline>'' @ dict_get (fst (build_objects ?ss)) j []
                             @ ''\<newline>endobj\<newline>'') [1..<6])"
  have off: "dict_get (recorded_offsets ?ss) 6 0 = 402" by code_simp
  have fm: "fmt_010d 402 = ''0000000402''" by code_simp
  have tok: "str_nat 6 = ''6''" by code_simp
  have body: "dict_get (fst (build_objects ?ss)) 6 [] = ''<< /Length 2 >>\<newline>stream\<newline>BTendstream''"
    by code_simp
  have six: "(6::nat) \<in> {1..<5 + 2 * length ?ss}" by simp
  have k: "(0::nat) < length ?ss" by simp
  from xref_offsets_exact[of ?ss] six
  have len: "dict_get (recorded_offsets ?ss) 6 0 = length ?pre"
    and ex: "\<exists>post. write_pdf ?ss = Inr (?pre @ (str_nat 6 @ '' 0 obj\<newline>'')
        @ dict_get (fst (build_objects ?ss)) 6 [] @ ''\<newline>endobj\<newline>'' @ post)"
    by blast+
  from ex obtain post where "write_pdf ?ss = Inr (?pre @ (str_nat 6 @ '' 0 obj\<newline>'')
        @ dict_get (fst (build_objects ?ss)) 6 [] @ ''\<newline>endobj\<newline>'' @ post)" by blast
  then have w: "write_pdf ?ss = Inr (?pre
         @ ''6 0 obj\<newline><< /Length 2 >>\<newline>stream\<newline>BTendstream\<newline>endobj\<newline>'' @ post)"
    unfolding tok body by (simp del: upt.simps)
  from xref_offsets_exact[of ?ss] k
  have objs: "map_of (fst (build_objects ?ss)) (5 + 2 * 0) = Some (page_object (6 + 2 * 0))
      \<and> map_of (fst (build_objects ?ss)) (6 + 2 * 0) = Some (content_object (?ss ! 0))"
    by blast
  from xref_offsets_exact[of ?ss]
  have keys: "sort (dict_keys (fst (build_objects ?ss))) = [1..<5 + 2 * length ?ss]"
    by blast
  have u: "[1..<5 + 2 * length ?ss] = [1, 2, 3, 4, 5, 6::nat]" by code_simp
  have "write_pdf ?ss = Inr (?pre
         @ ''6 0 obj\<newline><< /Length 2 >>\<newline>stream\<newline>BTendstream\<newline>endobj\<newline>'' @ post)
      \<and> length ?pre = 402
      \<and> dict_get (recorded_offsets ?ss) 6 0 = 402
      \<and> fmt_010d 402 = ''0000000402''
      \<and> sort (dict_keys (fst (build_objects ?ss))) = [1, 2, 3, 4, 5, 6]
      \<and> map_of (fst (build_objects ?ss)) 5 = Some (page_object 6)
      \<and> map_of (fst (build_objects ?ss)) 6 = Some (content_object (ascii ''BT''))"
    using w len off fm objs keys u by (simp del: upt.simps)
  then show ?thesis by blast
qed


section \<open>The length of a content stream\<close>

text \<open>
  C3. For every page of the file, the number written after \<open>/Length\<close> in the
  dictionary of its content-stream object is the exact number of bytes of the stream
  body between \<open>stream\<close> with its line feed and \<open>endstream\<close>, that is the length
  of the page stream encoded in Latin-1 with lossy substitution (one byte for each
  character of the stream).
\<close>

theorem content_length_exact:
  "\<forall>k<length ss. \<exists>pre post.
      write_pdf ss = Inr (pre @ obj_token (6 + 2 * k)
         @ ''<< /Length '' @ str_nat (length (encode_latin1_replace (ss ! k))) @ '' >>\<newline>stream\<newline>''
         @ encode_latin1_replace (ss ! k) @ ''endstream'' @ ''\<newline>endobj\<newline>'' @ post)
      \<and> length pre = dict_get (recorded_offsets ss) (6 + 2 * k) 0
      \<and> read_nat (str_nat (length (encode_latin1_replace (ss ! k)))) = length (encode_latin1_replace (ss ! k))
      \<and> length (encode_latin1_replace (ss ! k)) = length (ss ! k)"
proof (intro allI impI)
  fix k assume k: "k < length ss"
  let ?i = "6 + 2 * k"
  let ?B = "encode_latin1_replace (ss ! k)"
  have i1: "1 \<le> ?i" and i2: "?i < 5 + 2 * length ss" using k by simp_all
  have m: "map_of (fst (build_objects ss)) ?i = Some (content_object (ss ! k))"
    using build_objects_facts(8)[of ss] k by blast
  have ot: "object_text (fst (build_objects ss)) ?i
      = obj_token ?i @ ''<< /Length '' @ str_nat (length ?B) @ '' >>\<newline>stream\<newline>''
         @ ?B @ ''endstream'' @ ''\<newline>endobj\<newline>''"
    by (simp add: object_text_def dict_get_def m content_object_def Let_def)
  obtain post where f: "file_body ss = take (object_offset ss ?i) (file_body ss) @ object_text (fst (build_objects ss)) ?i @ post"
    and l: "length (take (object_offset ss ?i) (file_body ss)) = object_offset ss ?i"
    using file_body_split[OF i1 i2] by blast
  let ?pre = "take (object_offset ss ?i) (file_body ss)"
  let ?rest = "concat (xref_section (recorded_offsets ss) (4 + 2 * length ss))
      @ trailer (4 + 2 * length ss) (length (file_body ss))"
  have "write_pdf ss = Inr (file_body ss @ ?rest)"
    using write_pdf_eq[of ss] by simp
  also have "file_body ss @ ?rest = ?pre @ object_text (fst (build_objects ss)) ?i @ (post @ ?rest)"
    using f by (metis append.assoc)
  finally have w: "write_pdf ss = Inr (?pre @ obj_token ?i
         @ ''<< /Length '' @ str_nat (length ?B) @ '' >>\<newline>stream\<newline>''
         @ ?B @ ''endstream'' @ ''\<newline>endobj\<newline>'' @ (post @ ?rest))"
    by (simp only: ot append.assoc)
  have o: "length ?pre = dict_get (recorded_offsets ss) ?i 0"
    using l recorded_offsets_eq[OF i1 i2] by simp
  from w o show "\<exists>pre post.
      write_pdf ss = Inr (pre @ obj_token ?i
         @ ''<< /Length '' @ str_nat (length ?B) @ '' >>\<newline>stream\<newline>''
         @ ?B @ ''endstream'' @ ''\<newline>endobj\<newline>'' @ post)
      \<and> length pre = dict_get (recorded_offsets ss) ?i 0
      \<and> read_nat (str_nat (length ?B)) = length ?B
      \<and> length ?B = length (ss ! k)"
    using read_nat_str_nat[of "length ?B"] length_encode_latin1_replace[of "ss ! k"] by blast
qed

theorem content_length_exact_witness:
  "\<exists>pre post.
      write_pdf [[66, 84, 8364]] = Inr (pre @ obj_token 6
         @ ''<< /Length 3 >>\<newline>stream\<newline>BT?endstream\<newline>endobj\<newline>'' @ post)
      \<and> length pre = 402"
proof -
  have k: "(0::nat) < length [[66, 84, 8364::nat]]" by simp
  have e: "encode_latin1_replace [66, 84, 8364] = ''BT?''" by code_simp
  have "str_nat 3 = ''3''" by code_simp
  then have n: "str_nat (Suc (Suc (Suc 0))) = ''3''" by (simp add: numeral_3_eq_3)
  have o: "dict_get (recorded_offsets [[66, 84, 8364]]) 6 0 = 402" by code_simp
  from content_length_exact[of "[[66, 84, 8364]]"] k
  obtain pre post where
    "write_pdf [[66, 84, 8364]] = Inr (pre @ obj_token (6 + 2 * 0)
         @ ''<< /Length '' @ str_nat (length (encode_latin1_replace ([[66, 84, 8364]] ! 0))) @ '' >>\<newline>stream\<newline>''
         @ encode_latin1_replace ([[66, 84, 8364]] ! 0) @ ''endstream'' @ ''\<newline>endobj\<newline>'' @ post)"
    and "length pre = dict_get (recorded_offsets [[66, 84, 8364]]) (6 + 2 * 0) 0"
    by blast
  then have "write_pdf [[66, 84, 8364]] = Inr (pre @ obj_token 6
         @ ''<< /Length 3 >>\<newline>stream\<newline>BT?endstream\<newline>endobj\<newline>'' @ post)
      \<and> length pre = 402"
    by (simp add: e o n)
  then show ?thesis by blast
qed


section \<open>The budget of \<open>wrap_text\<close> and its fallback\<close>












end
